theory Spec2Isabelle
  imports Main
begin

section \<open>JSON values and JavaScript objects\<close>

text \<open>
  The entities handled by the frontend services are JSON payloads. A JavaScript object is
  modelled as the list of its own enumerable properties, a property read is a lookup that
  yields \<open>JUndefined\<close> for a missing key, and a property write updates the entry in place
  or appends it. The order of a list is the order in which the properties were created.
  An engine enumerates integer-like keys before the others; that reordering is a function
  of the key set, so two objects whose lists agree here agree in the engine as well.
  Numbers are only copied and tested for zero by the code below, so integers stand for them.
\<close>

datatype json =
    JUndefined
  | JNull
  | JBool bool
  | JNum int
  | JStr string
  | JArr "json list"
  | JObj "(string \<times> json) list"

type_synonym obj = "(string \<times> json) list"

text \<open>JavaScript truthiness, as used by \<^verbatim>\<open>x || y\<close>.\<close>

fun truthy :: "json \<Rightarrow> bool" where
  "truthy JUndefined = False"
| "truthy JNull = False"
| "truthy (JBool b) = b"
| "truthy (JNum n) = (n \<noteq> 0)"
| "truthy (JStr s) = (s \<noteq> [])"
| "truthy (JArr xs) = True"
| "truthy (JObj kvs) = True"

definition or_else :: "json \<Rightarrow> json \<Rightarrow> json" where
  "or_else a b = (if truthy a then a else b)"

text \<open>Property read \<^verbatim>\<open>ob.k\<close> and property write \<^verbatim>\<open>ob[k] = v\<close>.\<close>

definition get_prop :: "obj \<Rightarrow> string \<Rightarrow> json" where
  "get_prop ob k = (case map_of ob k of None \<Rightarrow> JUndefined | Some v \<Rightarrow> v)"

fun set_prop :: "string \<Rightarrow> json \<Rightarrow> obj \<Rightarrow> obj" where
  "set_prop k v [] = [(k, v)]"
| "set_prop k v ((k', v') # rest) =
     (if k' = k then (k, v) # rest else (k', v') # set_prop k v rest)"

text \<open>
  Object spread inside an object literal: every property of the source is written to the
  object under construction, in order, so a later source overrides an earlier one.
\<close>

fun spread :: "obj \<Rightarrow> obj \<Rightarrow> obj" where
  "spread target [] = target"
| "spread target ((k, v) # ps) = spread (set_prop k v target) ps"

text \<open>
  The properties a spread copies from a value: those of an object, the indexed elements of
  an array, the indexed characters of a string, and nothing for the other primitives.
\<close>

definition digit_char :: "nat \<Rightarrow> char" where
  "digit_char d = ''0123456789'' ! d"

fun show_nat :: "nat \<Rightarrow> string" where
  "show_nat n =
     (if n < 10 then [digit_char n] else show_nat (n div 10) @ [digit_char (n mod 10)])"

definition index_keys :: "nat \<Rightarrow> string list" where
  "index_keys n = map show_nat [0..<n]"

fun own_props :: "json \<Rightarrow> obj" where
  "own_props (JObj kvs) = kvs"
| "own_props (JArr xs) = zip (index_keys (length xs)) xs"
| "own_props (JStr s) = zip (index_keys (length s)) (map (\<lambda>c. JStr [c]) s)"
| "own_props v = []"

section \<open>Key normalizer\<close>

text \<open>
  Modelled from the spec: \<^verbatim>\<open>transformKeysToCamelCase\<close> is imported by both service
  modules from \<^verbatim>\<open>./utils\<close>, which is not among the sources at hand. The spec
  (section 4.1) describes it as a pure function that rewrites every snake_case mapping key
  to camelCase, processes list elements recursively, passes scalars through unchanged and
  leaves camelCase keys alone. The key conversion below drops an underscore that is followed
  by a lower-case ASCII letter and capitalises that letter; every other character, including
  a leading, doubled or trailing underscore, is kept.
\<close>

definition upper_of :: "char \<Rightarrow> char option" where
  "upper_of c = map_of (zip ''abcdefghijklmnopqrstuvwxyz'' ''ABCDEFGHIJKLMNOPQRSTUVWXYZ'') c"

fun camelKey :: "string \<Rightarrow> string" where
  "camelKey (c # d # r) =
     (if c = CHR ''_'' then
        (case upper_of d of
           Some u \<Rightarrow> u # camelKey r
         | None \<Rightarrow> c # camelKey (d # r))
      else c # camelKey (d # r))"
| "camelKey s = s"

text \<open>
  Modelled from the spec: the recursive traversal of \<^verbatim>\<open>transformKeysToCamelCase\<close>
  (see above). A mapping is rebuilt key by key, so when two keys convert to the same name
  the later value is kept at the position of the earlier key.
\<close>

fun transformKeysToCamelCase :: "json \<Rightarrow> json" where
  "transformKeysToCamelCase (JArr xs) = JArr (map transformKeysToCamelCase xs)"
| "transformKeysToCamelCase (JObj kvs) =
     JObj (spread [] (map (\<lambda>(k, v). (camelKey k, transformKeysToCamelCase v)) kvs))"
| "transformKeysToCamelCase v = v"

section \<open>Response normalizers\<close>

text \<open>
  \<^verbatim>\<open>normalizeCampaignResponse\<close> (campaignService.ts) builds the object literal
  \<^verbatim>\<open>{ ...campaign, ...data, data, type: campaign.type }\<close> where \<^verbatim>\<open>data\<close> is the
  key-normalized \<^verbatim>\<open>campaign.data || {}\<close>. \<^verbatim>\<open>normalizePersonaResponse\<close>
  (accountService.ts, lines 158-168) builds \<^verbatim>\<open>{ ...persona, ...data, data }\<close>.
  The console logging of both functions is left out.
\<close>

definition normalizeCampaignResponse :: "obj \<Rightarrow> obj" where
  "normalizeCampaignResponse campaign =
     (let data = transformKeysToCamelCase (or_else (get_prop campaign ''data'') (JObj []))
      in set_prop ''type'' (get_prop campaign ''type'')
           (set_prop ''data'' data
             (spread (spread [] campaign) (own_props data))))"

definition normalizePersonaResponse :: "obj \<Rightarrow> obj" where
  "normalizePersonaResponse persona =
     (let data = transformKeysToCamelCase (or_else (get_prop persona ''data'') (JObj []))
      in set_prop ''data'' data
           (spread (spread [] persona) (own_props data)))"

section \<open>Authentication state and the auth-change effect\<close>

record UserInfo =
  user_id :: string
  email :: string
  name :: "string option"
  tier :: "string option"
  rate_limit_exempt :: "bool option"
  created_at :: "string option"
  last_used :: "string option"

record AuthState =
  isAuthenticated :: bool
  token :: "string option"
  userInfo :: "UserInfo option"

text \<open>
  Modelled from the spec: the Draft Manager (\<^verbatim>\<open>./draftManager\<close>) is imported by the
  auth module but is not among the sources at hand. The spec (section 4.3) describes its
  store as a persistent mapping from entity kind to an ordered list of drafts, and
  \<^verbatim>\<open>getDrafts(kind)\<close> as returning the drafts of a kind, or the empty list.
\<close>

type_synonym draft_store = "(string \<times> obj list) list"

definition getDrafts :: "draft_store \<Rightarrow> string \<Rightarrow> obj list" where
  "getDrafts store kind = (case map_of store kind of None \<Rightarrow> [] | Some ds \<Rightarrow> ds)"

text \<open>
  Modelled from the spec: \<^verbatim>\<open>DraftManager.clearDraftsOnAuthChange\<close>, missing with the
  Draft Manager. Section 4.3: on a transition from unauthenticated to authenticated the
  drafts are cleared, on a transition from authenticated to unauthenticated the drafts are
  cleared as well, and a same-state call is a no-op.
\<close>

definition clearDraftsOnAuthChange :: "bool \<Rightarrow> bool \<Rightarrow> draft_store \<Rightarrow> draft_store" where
  "clearDraftsOnAuthChange wasUnauthenticated isNowAuthenticated store =
     (if wasUnauthenticated \<and> isNowAuthenticated then []
      else if \<not> wasUnauthenticated \<and> \<not> isNowAuthenticated then []
      else store)"

text \<open>
  The query cache is the cache client of the query library the hook obtains from
  \<^verbatim>\<open>useQueryClient\<close>: a collection of entries under list-valued keys.
  \<^verbatim>\<open>clear()\<close> removes every entry; \<^verbatim>\<open>invalidateQueries({ queryKey })\<close> marks
  the entries whose key starts with the given key as invalidated.
\<close>

record query =
  queryKey :: "string list"
  queryData :: json
  isInvalidated :: bool

type_synonym query_cache = "query list"

definition queryClient_clear :: "query_cache \<Rightarrow> query_cache" where
  "queryClient_clear c = []"

definition invalidateQueries :: "string list \<Rightarrow> query_cache \<Rightarrow> query_cache" where
  "invalidateQueries key c =
     map (\<lambda>q. if take (length key) (queryKey q) = key then q\<lparr>isInvalidated := True\<rparr> else q) c"

text \<open>
  The third effect of \<^verbatim>\<open>useAuthState\<close> (auth module, lines 310-337) reads the previous
  auth state from a ref, compares the two authentication flags, calls the Draft Manager and
  the cache client when they differ, and stores the current state in the ref. The state
  threaded through the effect holds the ref, the draft store, the query cache and the
  sequence of calls made to the two collaborators.
\<close>

datatype call =
    ClearDraftsOnAuthChange bool bool
  | QueryClientClear
  | InvalidateQueries "string list"

record hook_state =
  prevAuthState :: AuthState
  drafts :: draft_store
  cache :: query_cache
  calls :: "call list"

definition authChangeEffect :: "AuthState \<Rightarrow> hook_state \<Rightarrow> hook_state" where
  "authChangeEffect authState s =
     (let previousAuthState = prevAuthState s;
          wasUnauthenticated = \<not> isAuthenticated previousAuthState;
          isNowAuthenticated = isAuthenticated authState;
          s' = (if wasUnauthenticated \<noteq> (\<not> isAuthenticated authState) then
                  s\<lparr>drafts :=
                      clearDraftsOnAuthChange wasUnauthenticated isNowAuthenticated (drafts s),
                    cache := invalidateQueries [''companies'']
                               (invalidateQueries [''company''] (queryClient_clear (cache s))),
                    calls := calls s @
                      [ClearDraftsOnAuthChange wasUnauthenticated isNowAuthenticated,
                       QueryClientClear,
                       InvalidateQueries [''company''],
                       InvalidateQueries [''companies'']]\<rparr>
                else s)
      in s'\<lparr>prevAuthState := authState\<rparr>)"

text \<open>
  \<^verbatim>\<open>shouldUseAuthenticatedEndpoints\<close> and \<^verbatim>\<open>getApiBasePath\<close> read the global
  auth state, passed here as an argument. \<^verbatim>\<open>!!authState.token\<close> is false for
  \<^verbatim>\<open>null\<close> and for the empty string.
\<close>

definition shouldUseAuthenticatedEndpoints :: "AuthState \<Rightarrow> bool" where
  "shouldUseAuthenticatedEndpoints globalAuthState =
     (isAuthenticated globalAuthState \<and>
      (case token globalAuthState of None \<Rightarrow> False | Some t \<Rightarrow> t \<noteq> []))"

definition getApiBasePath :: "AuthState \<Rightarrow> string" where
  "getApiBasePath globalAuthState =
     (if shouldUseAuthenticatedEndpoints globalAuthState then ''/api'' else ''/demo'')"

section \<open>Rate-limit headers\<close>

text \<open>
  \<^verbatim>\<open>parseInt(s, 10)\<close>: leading white space is skipped, one sign is read, the longest
  prefix of decimal digits is converted, and the result is \<^verbatim>\<open>NaN\<close> when that prefix is
  empty. Header values are byte strings, so the white space characters are those below 256.
  The result is the mathematical integer; an engine rounds magnitudes beyond \<open>2^53\<close> to
  the nearest double.
\<close>

datatype js_number = NaN | Num int

definition is_white_space :: "char \<Rightarrow> bool" where
  "is_white_space c =
     (c \<in> set [CHR 0x09, CHR 0x0A, CHR 0x0B, CHR 0x0C, CHR 0x0D, CHR 0x20, CHR 0xA0])"

definition digit_value :: "char \<Rightarrow> int option" where
  "digit_value c = map_of (zip ''0123456789'' [0, 1, 2, 3, 4, 5, 6, 7, 8, 9]) c"

fun digits_value :: "int \<Rightarrow> string \<Rightarrow> int" where
  "digits_value acc [] = acc"
| "digits_value acc (c # cs) =
     (case digit_value c of None \<Rightarrow> acc | Some d \<Rightarrow> digits_value (10 * acc + d) cs)"

definition parseInt10 :: "string \<Rightarrow> js_number" where
  "parseInt10 s =
     (let s1 = dropWhile is_white_space s;
          sign = (case s1 of c # r \<Rightarrow> if c = CHR ''-'' then - 1 else 1 | [] \<Rightarrow> 1);
          s2 = (case s1 of
                  c # r \<Rightarrow> if c = CHR ''-'' \<or> c = CHR ''+'' then r else s1
                | [] \<Rightarrow> s1)
      in case s2 of
           [] \<Rightarrow> NaN
         | c # r \<Rightarrow> (if digit_value c = None then NaN else Num (sign * digits_value 0 s2)))"

record RateLimitInfo =
  limit :: js_number
  remaining :: js_number
  reset :: js_number
  retryAfter :: "js_number option"

text \<open>
  \<^verbatim>\<open>response.headers.get(name)\<close> yields a string or \<^verbatim>\<open>null\<close>; the response is
  represented by that lookup. A header value is truthy when it is present and not empty.
\<close>

definition truthy_string :: "string option \<Rightarrow> bool" where
  "truthy_string v = (case v of None \<Rightarrow> False | Some s \<Rightarrow> s \<noteq> [])"

definition string_of :: "string option \<Rightarrow> string" where
  "string_of v = (case v of None \<Rightarrow> [] | Some s \<Rightarrow> s)"

definition parseRateLimitHeaders :: "(string \<Rightarrow> string option) \<Rightarrow> RateLimitInfo option" where
  "parseRateLimitHeaders headers_get =
     (let limit = headers_get ''X-RateLimit-Limit'';
          remaining = headers_get ''X-RateLimit-Remaining'';
          reset = headers_get ''X-RateLimit-Reset'';
          retryAfter = headers_get ''Retry-After''
      in if truthy_string limit \<and> truthy_string remaining \<and> truthy_string reset then
           Some \<lparr>limit = parseInt10 (string_of limit),
                 remaining = parseInt10 (string_of remaining),
                 reset = parseInt10 (string_of reset),
                 retryAfter = (if truthy_string retryAfter
                               then Some (parseInt10 (string_of retryAfter)) else None)\<rparr>
         else None)"

section \<open>Target accounts in durable local storage\<close>

text \<open>
  The storage functions of accountService.ts (lines 49-103) keep the account list as JSON
  text under the key \<^verbatim>\<open>target_accounts\<close>. What they read back is whatever
  \<^verbatim>\<open>JSON.parse\<close> returns: the annotation \<^verbatim>\<open>TargetAccount[]\<close> is not checked,
  so the stored data is an arbitrary JSON value here and every property access and array
  method follows the rules of the language, with the errors it raises.
\<close>

datatype js_error = SyntaxError | TypeError

definition then_e :: "js_error + 'a \<Rightarrow> ('a \<Rightarrow> js_error + 'b) \<Rightarrow> js_error + 'b" where
  "then_e r f = (case r of Inl e \<Rightarrow> Inl e | Inr v \<Rightarrow> f v)"

text \<open>
  The value \<^verbatim>\<open>JSON.parse(JSON.stringify(v))\<close> for a value other than
  \<^verbatim>\<open>undefined\<close>: a property whose value is \<^verbatim>\<open>undefined\<close> is dropped and an
  array element that is \<^verbatim>\<open>undefined\<close> becomes \<^verbatim>\<open>null\<close>.
\<close>

fun serialized :: "json \<Rightarrow> json" where
  "serialized (JArr xs) = JArr (map (\<lambda>x. if x = JUndefined then JNull else serialized x) xs)"
| "serialized (JObj kvs) =
     JObj (map (\<lambda>(k, v). (k, serialized v)) (filter (\<lambda>(k, v). v \<noteq> JUndefined) kvs))"
| "serialized v = v"

text \<open>
  A stored string is the empty string, a non-empty string that \<^verbatim>\<open>JSON.parse\<close> rejects,
  or a string that \<^verbatim>\<open>JSON.parse\<close> accepts. The code only ever parses the string, so
  an accepted string is represented by a value it is the JSON text of: \<open>JsonText v\<close> is the
  string that \<^verbatim>\<open>setItem\<close> stores for \<^verbatim>\<open>JSON.stringify(v)\<close>. For
  \<^verbatim>\<open>undefined\<close> that string is \<^verbatim>\<open>"undefined"\<close>, which the parser rejects. The
  item under the key is \<open>None\<close> when \<^verbatim>\<open>getItem\<close> yields \<^verbatim>\<open>null\<close>. Writes are
  modelled as succeeding; the storage quota is not part of the model.
\<close>

datatype stored_text = EmptyString | Malformed | JsonText json

definition JSON_stringify :: "json \<Rightarrow> stored_text" where
  "JSON_stringify v = JsonText v"

fun JSON_parse :: "stored_text \<Rightarrow> js_error + json" where
  "JSON_parse EmptyString = Inl SyntaxError"
| "JSON_parse Malformed = Inl SyntaxError"
| "JSON_parse (JsonText v) = (if v = JUndefined then Inl SyntaxError else Inr (serialized v))"

text \<open>
  \<^verbatim>\<open>getStoredTargetAccounts\<close> is \<^verbatim>\<open>stored ? JSON.parse(stored) : []\<close>: a missing
  item and the empty string are falsy; every other string goes to the parser, and its
  result, of whatever shape, or its error is the result of the function.
\<close>

definition getStoredTargetAccounts :: "stored_text option \<Rightarrow> js_error + json" where
  "getStoredTargetAccounts stored =
     (case stored of
        None \<Rightarrow> Inr (JArr [])
      | Some t \<Rightarrow> if t = EmptyString then Inr (JArr []) else JSON_parse t)"

text \<open>
  Property reads on a JSON value. \<open>field v k\<close> is the own property \<^verbatim>\<open>k\<close> of a value,
  \<^verbatim>\<open>undefined\<close> when there is none; \<open>read_field\<close> is the expression \<^verbatim>\<open>v.k\<close>,
  which raises a \<^verbatim>\<open>TypeError\<close> on \<^verbatim>\<open>null\<close> and \<^verbatim>\<open>undefined\<close>. Inherited
  properties are not modelled: the code reads \<^verbatim>\<open>id\<close> and \<^verbatim>\<open>personas\<close> only,
  which no prototype defines.
\<close>

definition field :: "json \<Rightarrow> string \<Rightarrow> json" where
  "field v k = get_prop (own_props v) k"

definition read_field :: "json \<Rightarrow> string \<Rightarrow> js_error + json" where
  "read_field v k = (if v = JNull \<or> v = JUndefined then Inl TypeError else Inr (field v k))"

text \<open>
  Strict equality \<^verbatim>\<open>===\<close>. Primitives are compared by value. An object or array is
  equal only to itself, and the values compared below always come from different sources
  (a fresh parse of the stored text on one side, an argument on the other), so a comparison
  that involves one is false.
\<close>

fun is_primitive :: "json \<Rightarrow> bool" where
  "is_primitive (JArr xs) = False"
| "is_primitive (JObj kvs) = False"
| "is_primitive v = True"

definition strict_eq :: "json \<Rightarrow> json \<Rightarrow> bool" where
  "strict_eq a b = (is_primitive a \<and> is_primitive b \<and> a = b)"

text \<open>
  \<^verbatim>\<open>findIndex\<close>, \<^verbatim>\<open>filter\<close> and \<^verbatim>\<open>find\<close> of \<^verbatim>\<open>Array.prototype\<close>, with a
  callback that may raise; calling one of them on a value that is not an array raises a
  \<^verbatim>\<open>TypeError\<close>.
\<close>

definition as_array :: "json \<Rightarrow> js_error + json list" where
  "as_array v = (case v of JArr xs \<Rightarrow> Inr xs | _ \<Rightarrow> Inl TypeError)"

fun findIndex :: "('a \<Rightarrow> js_error + bool) \<Rightarrow> 'a list \<Rightarrow> js_error + int" where
  "findIndex p [] = Inr (- 1)"
| "findIndex p (x # xs) =
     then_e (p x) (\<lambda>b. if b then Inr 0
        else then_e (findIndex p xs) (\<lambda>i. Inr (if i < 0 then - 1 else i + 1)))"

fun filter_js :: "('a \<Rightarrow> js_error + bool) \<Rightarrow> 'a list \<Rightarrow> js_error + 'a list" where
  "filter_js p [] = Inr []"
| "filter_js p (x # xs) =
     then_e (p x) (\<lambda>b. then_e (filter_js p xs) (\<lambda>r. Inr (if b then x # r else r)))"

fun find_js :: "('a \<Rightarrow> js_error + bool) \<Rightarrow> 'a list \<Rightarrow> js_error + 'a option" where
  "find_js p [] = Inr None"
| "find_js p (x # xs) = then_e (p x) (\<lambda>b. if b then Inr (Some x) else find_js p xs)"

text \<open>
  The callbacks: \<^verbatim>\<open>p => p.id === x\<close> for a string \<^verbatim>\<open>x\<close>, and
  \<^verbatim>\<open>p => p.id === other.id\<close>.
\<close>

definition id_is :: "json \<Rightarrow> json \<Rightarrow> js_error + bool" where
  "id_is v p = then_e (read_field p ''id'') (\<lambda>a. Inr (strict_eq a v))"

definition same_id :: "json \<Rightarrow> json \<Rightarrow> js_error + bool" where
  "same_id other p =
     then_e (read_field p ''id'') (\<lambda>a. then_e (read_field other ''id'') (\<lambda>b. Inr (strict_eq a b)))"

definition saveTargetAccount :: "json \<Rightarrow> stored_text option \<Rightarrow> js_error + stored_text option" where
  "saveTargetAccount account stored =
     then_e (getStoredTargetAccounts stored) (\<lambda>accounts.
     then_e (as_array accounts) (\<lambda>xs.
     then_e (findIndex (same_id account) xs) (\<lambda>existingIndex.
       Inr (Some (JSON_stringify
         (JArr (if existingIndex \<ge> 0
                then xs[nat existingIndex := account]
                else xs @ [account])))))))"

definition deleteTargetAccount :: "string \<Rightarrow> stored_text option \<Rightarrow> js_error + stored_text option" where
  "deleteTargetAccount ident stored =
     then_e (getStoredTargetAccounts stored) (\<lambda>accounts.
     then_e (as_array accounts) (\<lambda>xs.
     then_e (filter_js (\<lambda>p. then_e (id_is (JStr ident) p) (\<lambda>b. Inr (\<not> b))) xs) (\<lambda>filtered.
       Inr (Some (JSON_stringify (JArr filtered))))))"

definition getPersonasForTargetAccount :: "string \<Rightarrow> stored_text option \<Rightarrow> js_error + json" where
  "getPersonasForTargetAccount accountId stored =
     then_e (getStoredTargetAccounts stored) (\<lambda>accounts.
     then_e (as_array accounts) (\<lambda>xs.
     then_e (find_js (id_is (JStr accountId)) xs) (\<lambda>account.
       Inr (or_else (case account of None \<Rightarrow> JUndefined | Some a \<Rightarrow> field a ''personas'')
              (JArr [])))))"

text \<open>
  \<^verbatim>\<open>updatePersonaForTargetAccount\<close> returns early, without writing, when the account
  is not found, when its \<^verbatim>\<open>personas\<close> is falsy, and when the persona is not found.
  Otherwise it replaces the persona in the array of the account it read and hands the
  account to \<^verbatim>\<open>saveTargetAccount\<close>, which reads the store again. \<open>with_personas\<close> is
  the account after the assignment to the element of its array; only an object can have a
  truthy \<^verbatim>\<open>personas\<close>.
\<close>

definition with_personas :: "json \<Rightarrow> json \<Rightarrow> json" where
  "with_personas account v =
     (case account of JObj kvs \<Rightarrow> JObj (set_prop ''personas'' v kvs) | _ \<Rightarrow> account)"

definition updatePersonaForTargetAccount ::
    "string \<Rightarrow> json \<Rightarrow> stored_text option \<Rightarrow> js_error + stored_text option" where
  "updatePersonaForTargetAccount accountId persona stored =
     then_e (getStoredTargetAccounts stored) (\<lambda>accounts.
     then_e (as_array accounts) (\<lambda>xs.
     then_e (findIndex (id_is (JStr accountId)) xs) (\<lambda>idx.
       if idx = - 1 then Inr stored
       else
         (let account = xs ! nat idx in
          then_e (read_field account ''personas'') (\<lambda>personas.
            if \<not> truthy personas then Inr stored
            else
              then_e (as_array personas) (\<lambda>ps.
              then_e (findIndex (same_id persona) ps) (\<lambda>personaIdx.
                if personaIdx = - 1 then Inr stored
                else saveTargetAccount
                       (with_personas account (JArr (ps[nat personaIdx := persona])))
                       stored)))))))"

text \<open>
  Well-formed stored data, as the type annotations of the functions describe it: an account
  or a persona is an object whose \<^verbatim>\<open>id\<close> is a string, and the \<^verbatim>\<open>personas\<close> of
  an account, when present, is an array of personas. A plain value contains no
  \<^verbatim>\<open>undefined\<close>.
\<close>

fun has_string_id :: "json \<Rightarrow> bool" where
  "has_string_id (JObj kvs) = (case get_prop kvs ''id'' of JStr s \<Rightarrow> True | _ \<Rightarrow> False)"
| "has_string_id v = False"

definition is_account :: "json \<Rightarrow> bool" where
  "is_account a =
     (has_string_id a \<and>
      (case field a ''personas'' of
         JUndefined \<Rightarrow> True
       | JArr ps \<Rightarrow> list_all has_string_id ps
       | _ \<Rightarrow> False))"

fun plain :: "json \<Rightarrow> bool" where
  "plain JUndefined = False"
| "plain (JArr xs) = list_all plain xs"
| "plain (JObj kvs) = list_all (\<lambda>(k, v). plain v) kvs"
| "plain v = True"

section \<open>Sample data\<close>

definition anonymous :: AuthState where
  "anonymous = \<lparr>isAuthenticated = False, token = None, userInfo = None\<rparr>"

definition signed_in :: AuthState where
  "signed_in = \<lparr>isAuthenticated = True, token = Some ''tok'',
     userInfo = Some \<lparr>user_id = ''u1'', email = ''u1@example.com'', name = None, tier = None,
       rate_limit_exempt = None, created_at = None, last_used = None\<rparr>\<rparr>"

definition sample_hook_state :: "AuthState \<Rightarrow> hook_state" where
  "sample_hook_state prev =
     \<lparr>prevAuthState = prev,
      drafts = [(''account'', [[(''tempId'', JStr ''t1'')]])],
      cache = [\<lparr>queryKey = [''company'', ''7''], queryData = JNull, isInvalidated = False\<rparr>],
      calls = []\<rparr>"

definition sample_headers :: "string \<Rightarrow> string option" where
  "sample_headers =
     map_of [(''X-RateLimit-Limit'', ''100''), (''X-RateLimit-Remaining'', ''99''),
             (''X-RateLimit-Reset'', ''1700000000'')]"

definition persona_a :: json where
  "persona_a = JObj [(''id'', JStr ''p1''), (''title'', JStr ''CTO'')]"

definition persona_b :: json where
  "persona_b = JObj [(''id'', JStr ''p2''), (''title'', JStr ''VP Sales'')]"

definition account_a :: json where
  "account_a = JObj [(''id'', JStr ''a1''), (''name'', JStr ''Acme''), (''personas'', JArr [persona_a])]"

definition account_b :: json where
  "account_b = JObj [(''id'', JStr ''a2''), (''name'', JStr ''Globex'')]"

definition account_c :: json where
  "account_c = JObj [(''id'', JStr ''a2''), (''name'', JStr ''Initech'')]"

lemmas sample_defs = persona_a_def persona_b_def account_a_def account_b_def

section \<open>Objects: property writes and spreads\<close>

lemma map_of_set_prop: "map_of (set_prop k v ob) = (map_of ob)(k \<mapsto> v)"
  by (induction ob) (auto simp: fun_eq_iff)

lemma keys_set_prop:
  "map fst (set_prop k v ob) = (if k \<in> fst ` set ob then map fst ob else map fst ob @ [k])"
  by (induction ob) force+

lemma distinct_set_prop: "distinct (map fst ob) \<Longrightarrow> distinct (map fst (set_prop k v ob))"
  by (simp add: keys_set_prop)

lemma map_of_spread: "map_of (spread target ps) = map_of target ++ map_of (rev ps)"
proof (induction ps arbitrary: target)
  case Nil
  then show ?case by simp
next
  case (Cons p ps)
  obtain k v where p: "p = (k, v)" by (cases p)
  show ?case
    by (simp add: p Cons.IH map_of_set_prop fun_eq_iff map_add_def split: option.splits)
qed

lemma keys_spread_set:
  "fst ` set (spread target ps) = fst ` set target \<union> fst ` set ps"
proof (induction ps arbitrary: target)
  case Nil
  then show ?case by simp
next
  case (Cons p ps)
  obtain k v where p: "p = (k, v)" by (cases p)
  have "fst ` set (set_prop k v target) = insert k (fst ` set target)"
    using keys_set_prop [of k v target] by (metis (no_types) list.set_map set_append list.set(1,2) Un_insert_right sup_bot.right_neutral insert_absorb)
  then show ?case by (simp add: p Cons.IH)
qed

lemma keys_spread_sub:
  "fst ` set ps \<subseteq> fst ` set target \<Longrightarrow> map fst (spread target ps) = map fst target"
proof (induction ps arbitrary: target)
  case Nil
  then show ?case by simp
next
  case (Cons p ps)
  obtain k v where p: "p = (k, v)" by (cases p)
  from Cons.prems have k: "k \<in> fst ` set target" and
    rest: "fst ` set ps \<subseteq> fst ` set target" by (auto simp: p)
  have same: "map fst (set_prop k v target) = map fst target"
    using k by (simp add: keys_set_prop)
  have "map fst (spread (set_prop k v target) ps) = map fst (set_prop k v target)"
  proof (rule Cons.IH)
    have "fst ` set (set_prop k v target) = fst ` set target"
      using same by (metis list.set_map)
    then show "fst ` set ps \<subseteq> fst ` set (set_prop k v target)" using rest by simp
  qed
  then show ?case by (simp add: p same)
qed

lemma distinct_spread:
  "distinct (map fst target) \<Longrightarrow> distinct (map fst (spread target ps))"
proof (induction ps arbitrary: target)
  case Nil
  then show ?case by simp
next
  case (Cons p ps)
  obtain k v where p: "p = (k, v)" by (cases p)
  show ?case using Cons.prems by (simp add: p Cons.IH distinct_set_prop)
qed

lemma obj_eqI:
  assumes "distinct (map fst a)" and "map fst a = map fst b" and "map_of a = map_of b"
  shows "a = b"
  using assms
proof (induction a arbitrary: b)
  case Nil
  then show ?case by simp
next
  case (Cons x a)
  obtain k v where x: "x = (k, v)" by (cases x)
  from Cons.prems(2) obtain y b' where b: "b = y # b'" by (cases b) auto
  obtain k' v' where y: "y = (k', v')" by (cases y)
  from Cons.prems(2) have kk: "k' = k" and keys: "map fst a = map fst b'"
    by (auto simp: b x y)
  from fun_cong [OF Cons.prems(3), of k] have vv: "v' = v" by (simp add: b x y kk)
  have nin: "k \<notin> fst ` set a" using Cons.prems(1) by (simp add: x)
  have "map_of a = map_of b'"
  proof
    fix j
    show "map_of a j = map_of b' j"
    proof (cases "j = k")
      case True
      then have "map_of a j = None" using nin by (simp add: map_of_eq_None_iff)
      moreover have "fst ` set a = fst ` set b'" using keys by (metis list.set_map)
      then have "map_of b' j = None" using nin True by (simp add: map_of_eq_None_iff)
      ultimately show ?thesis by simp
    next
      case False
      from fun_cong [OF Cons.prems(3), of j] show ?thesis using False by (simp add: b x y kk)
    qed
  qed
  moreover have "distinct (map fst a)" using Cons.prems(1) by simp
  ultimately have "a = b'" using keys by (intro Cons.IH)
  then show ?case by (simp add: b x y kk vv)
qed

lemma spread_append:
  "distinct (map fst (target @ ps)) \<Longrightarrow> spread target ps = target @ ps"
proof (induction ps arbitrary: target)
  case Nil
  then show ?case by simp
next
  case (Cons p ps)
  obtain k v where p: "p = (k, v)" by (cases p)
  have nin: "k \<notin> fst ` set target" using Cons.prems by (auto simp: p)
  have sp: "set_prop k v target = target @ [(k, v)]"
    using nin by (induction target) auto
  have "spread (target @ [(k, v)]) ps = (target @ [(k, v)]) @ ps"
    by (rule Cons.IH) (use Cons.prems in \<open>simp add: p\<close>)
  then show ?case by (simp add: p sp)
qed

lemma spread_Nil_id: "distinct (map fst ob) \<Longrightarrow> spread [] ob = ob"
  using spread_append [of "[]" ob] by simp

lemma in_set_set_prop: "e \<in> set (set_prop k v ob) \<Longrightarrow> e = (k, v) \<or> e \<in> set ob"
  by (induction ob) (auto split: if_splits)

lemma set_set_prop: "set (set_prop k v ob) \<subseteq> insert (k, v) (set ob)"
  using in_set_set_prop by fastforce

lemma set_spread: "set (spread target ps) \<subseteq> set target \<union> set ps"
proof (induction ps arbitrary: target)
  case Nil
  then show ?case by simp
next
  case (Cons p ps)
  obtain k v where p: "p = (k, v)" by (cases p)
  have "set (spread (set_prop k v target) ps) \<subseteq> set (set_prop k v target) \<union> set ps"
    by (rule Cons.IH)
  also have "\<dots> \<subseteq> insert (k, v) (set target) \<union> set ps"
    using set_set_prop [of k v target] by blast
  finally show ?case by (auto simp: p)
qed

lemma distinct_spread_Nil: "distinct (map fst (spread [] ps))"
  by (rule distinct_spread) simp

lemma spread_spread_Nil: "spread [] (spread [] ps) = spread [] ps"
  by (rule spread_Nil_id) (rule distinct_spread_Nil)

section \<open>The key normalizer is idempotent\<close>

lemma upper_of_upper:
  "u \<in> set ''ABCDEFGHIJKLMNOPQRSTUVWXYZ'' \<Longrightarrow> upper_of u = None \<and> u \<noteq> CHR ''_''"
  unfolding upper_of_def by (elim disjE | simp)+

lemma upper_of_range: "upper_of d = Some u \<Longrightarrow> upper_of u = None \<and> u \<noteq> CHR ''_''"
proof -
  assume "upper_of d = Some u"
  then have "(d, u) \<in> set (zip ''abcdefghijklmnopqrstuvwxyz'' ''ABCDEFGHIJKLMNOPQRSTUVWXYZ'')"
    unfolding upper_of_def by (rule map_of_SomeD)
  then have "u \<in> set ''ABCDEFGHIJKLMNOPQRSTUVWXYZ''"
    by (rule set_zip_rightD)
  then show ?thesis by (rule upper_of_upper)
qed

lemma camelKey_keep: "c \<noteq> CHR ''_'' \<Longrightarrow> camelKey (c # t) = c # camelKey t"
  by (cases t) auto

lemma camelKey_head:
  "camelKey (d # r) = e # t \<Longrightarrow> e = d \<or> (\<exists>x. upper_of x = Some e)"
  by (cases r) (auto split: if_splits option.splits)

lemma camelKey_nonempty: "camelKey (d # r) \<noteq> []"
  by (cases r) (auto split: option.splits)

lemma camelKey_idem: "camelKey (camelKey s) = camelKey s"
proof (induction s rule: camelKey.induct)
  case (1 c d r)
  show ?case
  proof (cases "c = CHR ''_''")
    case False
    then show ?thesis using 1(3) [OF False] by (simp add: camelKey_keep)
  next
    case True
    show ?thesis
    proof (cases "upper_of d")
      case (Some u)
      then have "u \<noteq> CHR ''_''" using upper_of_range by blast
      then show ?thesis using True Some 1(2) [OF True Some] by (simp add: camelKey_keep)
    next
      case None
      obtain e t where et: "camelKey (d # r) = e # t"
        using camelKey_nonempty [of d r] by (cases "camelKey (d # r)") auto
      have "upper_of e = None"
        using camelKey_head [OF et] None upper_of_range by auto
      then have "camelKey (c # e # t) = c # camelKey (e # t)"
        using True by simp
      then show ?thesis using True None 1(1) [OF True None] et by simp
    qed
  qed
qed simp_all

lemma transformKeysToCamelCase_idem:
  "transformKeysToCamelCase (transformKeysToCamelCase v) = transformKeysToCamelCase v"
proof (induction v rule: transformKeysToCamelCase.induct)
  case (1 xs)
  then show ?case by simp
next
  case (2 kvs)
  let ?f = "\<lambda>(k, v). (camelKey k, transformKeysToCamelCase v)"
  have fixed: "?f e = e" if "e \<in> set (spread [] (map ?f kvs))" for e
  proof -
    from that set_spread [of "[]" "map ?f kvs"] have "e \<in> set (map ?f kvs)" by auto
    then obtain k v where kv: "(k, v) \<in> set kvs" and e: "e = (camelKey k, transformKeysToCamelCase v)"
      by auto
    have "transformKeysToCamelCase (transformKeysToCamelCase v) = transformKeysToCamelCase v"
      using 2 [OF kv] by simp
    then show ?thesis by (simp add: e camelKey_idem)
  qed
  have "map ?f (spread [] (map ?f kvs)) = spread [] (map ?f kvs)"
    by (rule map_idI) (rule fixed)
  then show ?case by (simp add: spread_spread_Nil)
qed simp_all

lemma truthy_transformKeysToCamelCase:
  "truthy (transformKeysToCamelCase v) = truthy v"
  by (cases v) simp_all

lemma truthy_normalized_data:
  "truthy (transformKeysToCamelCase (or_else v (JObj [])))"
  by (simp add: truthy_transformKeysToCamelCase or_else_def)

section \<open>The response normalizers are idempotent\<close>

lemma respread:
  assumes n: "n = spread (spread (spread [] x) ps) fs"
  shows "spread (spread (spread [] n) ps) fs = n"
proof (rule obj_eqI)
  have dn: "distinct (map fst n)"
    unfolding n by (intro distinct_spread) simp
  then have sn: "spread [] n = n" by (rule spread_Nil_id)
  have kn: "fst ` set n = fst ` set x \<union> fst ` set ps \<union> fst ` set fs"
    unfolding n by (simp add: keys_spread_set)
  have k1: "map fst (spread n ps) = map fst n"
    by (rule keys_spread_sub) (use kn in auto)
  then have "fst ` set (spread n ps) = fst ` set n" by (metis list.set_map)
  then have k2: "map fst (spread (spread n ps) fs) = map fst (spread n ps)"
    by (intro keys_spread_sub) (use kn in auto)
  show "distinct (map fst (spread (spread (spread [] n) ps) fs))"
    by (simp add: sn k1 k2 dn)
  show "map fst (spread (spread (spread [] n) ps) fs) = map fst n"
    by (simp add: sn k1 k2)
  have "map_of n = map_of (spread [] x) ++ map_of (rev ps) ++ map_of (rev fs)"
    unfolding n by (simp add: map_of_spread)
  then show "map_of (spread (spread (spread [] n) ps) fs) = map_of n"
    by (simp add: sn map_of_spread) (auto simp: fun_eq_iff map_add_def split: option.splits)
qed

lemma get_prop_set_prop:
  "get_prop (set_prop k v ob) j = (if j = k then v else get_prop ob j)"
  by (simp add: get_prop_def map_of_set_prop)

lemma normalizeCampaignResponse_idem:
  "normalizeCampaignResponse (normalizeCampaignResponse x) = normalizeCampaignResponse x"
proof -
  define d where "d = transformKeysToCamelCase (or_else (get_prop x ''data'') (JObj []))"
  define t where "t = get_prop x ''type''"
  define n where "n = normalizeCampaignResponse x"
  have n: "n = spread (spread (spread [] x) (own_props d)) [(''data'', d), (''type'', t)]"
    by (simp add: n_def normalizeCampaignResponse_def d_def t_def Let_def)
  have td: "truthy d" unfolding d_def by (rule truthy_normalized_data)
  have dd: "transformKeysToCamelCase d = d"
    unfolding d_def by (rule transformKeysToCamelCase_idem)
  have nd: "get_prop n ''data'' = d" and nt: "get_prop n ''type'' = t"
    by (simp_all add: n get_prop_set_prop)
  have "normalizeCampaignResponse n =
      spread (spread (spread [] n) (own_props d)) [(''data'', d), (''type'', t)]"
    by (simp add: normalizeCampaignResponse_def nd nt or_else_def td dd Let_def)
  also have "\<dots> = n" by (rule respread) (rule n)
  finally show ?thesis by (simp add: n_def)
qed

lemma normalizePersonaResponse_idem:
  "normalizePersonaResponse (normalizePersonaResponse x) = normalizePersonaResponse x"
proof -
  define d where "d = transformKeysToCamelCase (or_else (get_prop x ''data'') (JObj []))"
  define n where "n = normalizePersonaResponse x"
  have n: "n = spread (spread (spread [] x) (own_props d)) [(''data'', d)]"
    by (simp add: n_def normalizePersonaResponse_def d_def Let_def)
  have td: "truthy d" unfolding d_def by (rule truthy_normalized_data)
  have dd: "transformKeysToCamelCase d = d"
    unfolding d_def by (rule transformKeysToCamelCase_idem)
  have nd: "get_prop n ''data'' = d"
    by (simp add: n get_prop_set_prop)
  have "normalizePersonaResponse n = spread (spread (spread [] n) (own_props d)) [(''data'', d)]"
    by (simp add: normalizePersonaResponse_def nd or_else_def td dd Let_def)
  also have "\<dots> = n" by (rule respread) (rule n)
  finally show ?thesis by (simp add: n_def)
qed

section \<open>Stored values, searches and list updates\<close>

lemma serialized_undefined: "(serialized v = JUndefined) = (v = JUndefined)"
  by (cases v) simp_all

lemma serialized_idem: "serialized (serialized v) = serialized v"
proof (induction v rule: serialized.induct)
  case (1 xs)
  have "(if (if x = JUndefined then JNull else serialized x) = JUndefined then JNull
         else serialized (if x = JUndefined then JNull else serialized x))
        = (if x = JUndefined then JNull else serialized x)" if "x \<in> set xs" for x
    using 1 [OF that] by (simp add: serialized_undefined)
  then show ?case by (simp add: comp_def)
next
  case (2 kvs)
  let ?keep = "\<lambda>(k, v). v \<noteq> JUndefined"
  let ?ser = "\<lambda>(k, v). (k, serialized v)"
  have keep: "filter ?keep (map ?ser (filter ?keep kvs)) = map ?ser (filter ?keep kvs)"
    by (rule filter_True) (auto simp: serialized_undefined)
  have "map ?ser (map ?ser (filter ?keep kvs)) = map ?ser (filter ?keep kvs)"
  proof -
    have "?ser (?ser e) = ?ser e" if "e \<in> set (filter ?keep kvs)" for e
    proof -
      obtain k v where e: "e = (k, v)" by (cases e)
      with that have "(k, v) \<in> set kvs" and "v \<noteq> JUndefined" by auto
      then have "serialized (serialized v) = serialized v"
        using 2 [of "(k, v)" k v] by simp
      then show ?thesis by (simp add: e)
    qed
    then show ?thesis by simp
  qed
  then show ?case by (simp add: keep)
qed simp_all

lemma serialized_plain: "plain v \<Longrightarrow> serialized v = v"
proof (induction v rule: serialized.induct)
  case (1 xs)
  have "(if x = JUndefined then JNull else serialized x) = x" if "x \<in> set xs" for x
  proof -
    from 1(2) that have px: "plain x" by (simp add: list_all_iff)
    then have "x \<noteq> JUndefined" by auto
    then show ?thesis using 1(1) [OF that _ px] by simp
  qed
  then show ?case by (simp add: map_idI)
next
  case (2 kvs)
  have all: "plain v" if "(k, v) \<in> set kvs" for k v
    using 2(2) that by (auto simp: list_all_iff)
  have "v \<noteq> JUndefined" if "(k, v) \<in> set kvs" for k v
    using all [OF that] by auto
  then have keep: "filter (\<lambda>(k, v). v \<noteq> JUndefined) kvs = kvs"
    by (intro filter_True) auto
  have "(\<lambda>(k, v). (k, serialized v)) e = e" if "e \<in> set kvs" for e
  proof -
    obtain k v where e: "e = (k, v)" by (cases e)
    have pv: "plain v" using all that e by simp
    then have "v \<noteq> JUndefined" by auto
    then have "serialized v = v" using 2(1) [of "(k, v)" k v] that e pv by simp
    then show ?thesis by (simp add: e)
  qed
  then show ?case by (simp add: keep map_idI)
qed simp_all

lemma read_stable:
  assumes "getStoredTargetAccounts stored = Inr v"
  shows "serialized v = v \<and> v \<noteq> JUndefined"
proof (cases stored)
  case None
  with assms show ?thesis by (auto simp: getStoredTargetAccounts_def)
next
  case (Some t)
  with assms show ?thesis
    by (cases t)
      (auto simp: getStoredTargetAccounts_def serialized_idem serialized_undefined
        split: if_splits)
qed

lemma stable_elements:
  assumes "serialized (JArr xs) = JArr xs" and "x \<in> set xs"
  shows "x \<noteq> JUndefined \<and> serialized x = x"
proof -
  from assms(1) have "map (\<lambda>x. if x = JUndefined then JNull else serialized x) xs = map id xs"
    by simp
  then have "(if x = JUndefined then JNull else serialized x) = id x"
    using assms(2) by (simp only: map_eq_conv)
  then show ?thesis by (cases "x = JUndefined") auto
qed

lemma stable_array:
  assumes "\<forall>x \<in> set ys. x \<noteq> JUndefined \<and> serialized x = x"
  shows "serialized (JArr ys) = JArr ys"
  using assms by (simp add: map_idI)

lemma read_written:
  "getStoredTargetAccounts (Some (JSON_stringify (JArr ys))) = Inr (serialized (JArr ys))"
  by (simp add: getStoredTargetAccounts_def JSON_stringify_def)

lemma has_string_id_cases:
  assumes "has_string_id p"
  obtains kvs s where "p = JObj kvs" and "get_prop kvs ''id'' = JStr s"
  using assms by (cases p) (auto split: json.splits)

lemma has_string_id_field:
  "has_string_id p \<Longrightarrow> \<exists>s. field p ''id'' = JStr s"
  by (erule has_string_id_cases) (simp add: field_def)

lemma has_string_id_read:
  "has_string_id p \<Longrightarrow> read_field p k = Inr (field p k)"
  by (erule has_string_id_cases) (simp add: read_field_def)

lemma map_of_serialized:
  "map_of kvs k = Some v \<Longrightarrow> v \<noteq> JUndefined \<Longrightarrow>
     map_of (map (\<lambda>(k, v). (k, serialized v)) (filter (\<lambda>(k, v). v \<noteq> JUndefined) kvs)) k
       = Some (serialized v)"
  by (induction kvs) (auto split: if_splits)

lemma serialized_string_id:
  assumes "has_string_id p"
  shows "has_string_id (serialized p) \<and> field (serialized p) ''id'' = field p ''id''"
proof -
  from assms obtain kvs s where p: "p = JObj kvs" and gid: "get_prop kvs ''id'' = JStr s"
    by (rule has_string_id_cases)
  from gid have m: "map_of kvs ''id'' = Some (JStr s)"
    by (auto simp: get_prop_def split: option.splits)
  then have "map_of (map (\<lambda>(k, v). (k, serialized v)) (filter (\<lambda>(k, v). v \<noteq> JUndefined) kvs)) ''id''
      = Some (serialized (JStr s))"
    by (rule map_of_serialized) simp
  then show ?thesis by (simp add: p m field_def get_prop_def)
qed

lemma strict_eq_primitive: "is_primitive a \<Longrightarrow> strict_eq a b = (a = b)"
  by (auto simp: strict_eq_def)

lemma id_is_string:
  "has_string_id p \<Longrightarrow> id_is (JStr s) p = Inr (field p ''id'' = JStr s)"
  using has_string_id_field [of p]
  by (auto simp: id_is_def then_e_def has_string_id_read strict_eq_primitive)

lemma same_id_defined:
  assumes "has_string_id p" and "other \<noteq> JNull" and "other \<noteq> JUndefined"
  shows "same_id other p = Inr (field p ''id'' = field other ''id'')"
proof -
  from has_string_id_field [OF assms(1)] obtain s where s: "field p ''id'' = JStr s" by blast
  have "read_field other ''id'' = Inr (field other ''id'')"
    using assms(2,3) by (simp add: read_field_def)
  then show ?thesis
    by (simp add: same_id_def then_e_def has_string_id_read [OF assms(1)] s strict_eq_primitive)
qed

lemma findIndex_total:
  assumes "\<forall>x \<in> set xs. p x = Inr (q x)"
  shows "\<exists>i. findIndex p xs = Inr i \<and> - 1 \<le> i \<and>
           ((i = - 1) = (\<forall>x \<in> set xs. \<not> q x)) \<and>
           (0 \<le> i \<longrightarrow> nat i < length xs \<and> q (xs ! nat i) \<and> find q xs = Some (xs ! nat i))"
  using assms
proof (induction xs)
  case Nil
  then show ?case by simp
next
  case (Cons x xs)
  from Cons.prems have px: "p x = Inr (q x)" and rest: "\<forall>y \<in> set xs. p y = Inr (q y)"
    by simp_all
  from Cons.IH [OF rest] obtain i where
    i: "findIndex p xs = Inr i" "- 1 \<le> i" "(i = - 1) = (\<forall>y \<in> set xs. \<not> q y)"
       "0 \<le> i \<longrightarrow> nat i < length xs \<and> q (xs ! nat i) \<and> find q xs = Some (xs ! nat i)"
    by blast
  show ?case
  proof (cases "q x")
    case True
    then show ?thesis by (simp add: px then_e_def)
  next
    case False
    show ?thesis
    proof (cases "i < 0")
      case True
      with i(2) have "i = - 1" by arith
      then show ?thesis using False i(1,3) by (simp add: px then_e_def)
    next
      case nonneg: False
      then have "nat (i + 1) = Suc (nat i)" by arith
      moreover have "i \<noteq> - 1" using nonneg by arith
      ultimately show ?thesis using False nonneg i by (auto simp: px then_e_def)
    qed
  qed
qed

lemma filter_js_total:
  "\<forall>x \<in> set xs. p x = Inr (q x) \<Longrightarrow> filter_js p xs = Inr (filter q xs)"
  by (induction xs) (simp_all add: then_e_def)

lemma find_js_total:
  "\<forall>x \<in> set xs. p x = Inr (q x) \<Longrightarrow> find_js p xs = Inr (find q xs)"
  by (induction xs) (simp_all add: then_e_def)

lemma filter_update_other:
  "i < length xs \<Longrightarrow> \<not> q (xs ! i) \<Longrightarrow> \<not> q a \<Longrightarrow> filter q (xs[i := a]) = filter q xs"
proof (induction xs arbitrary: i)
  case Nil
  then show ?case by simp
next
  case (Cons x xs)
  then show ?case by (cases i) auto
qed

lemma filter_update_same:
  "distinct (map f xs) \<Longrightarrow> i < length xs \<Longrightarrow> f (xs ! i) = f a \<Longrightarrow>
     filter (\<lambda>p. f p = f a) (xs[i := a]) = [a]"
proof (induction xs arbitrary: i)
  case Nil
  then show ?case by simp
next
  case (Cons x xs)
  show ?case
  proof (cases i)
    case 0
    with Cons.prems have "f x = f a" and "f x \<notin> f ` set xs" by auto
    then have "f x = f a" and "\<forall>y \<in> set xs. f y \<noteq> f a" by (simp, metis imageI)
    then have "filter (\<lambda>p. f p = f a) xs = []" by (simp add: filter_empty_conv)
    then show ?thesis using 0 by simp
  next
    case (Suc j)
    with Cons.prems have j: "j < length xs" and fj: "f (xs ! j) = f a" by auto
    then have "f a \<in> f ` set xs" by (metis imageI nth_mem)
    then have "f x \<noteq> f a" using Cons.prems(1) by auto
    moreover have "filter (\<lambda>p. f p = f a) (xs[j := a]) = [a]"
      using Cons.IH [OF _ j fj] Cons.prems(1) by simp
    ultimately show ?thesis using Suc by simp
  qed
qed

lemma map_update_same: "i < length xs \<Longrightarrow> f (xs ! i) = f a \<Longrightarrow> map f (xs[i := a]) = map f xs"
  by (simp add: map_update) (metis list_update_id nth_map)

lemma serialized_update:
  assumes "\<forall>x \<in> set xs. x \<noteq> JUndefined \<and> serialized x = x" and "a \<noteq> JUndefined"
  shows "serialized (JArr (xs[n := a])) = JArr (xs[n := serialized a])"
    and "serialized (JArr (xs @ [a])) = JArr (xs @ [serialized a])"
proof -
  have m: "map (\<lambda>x. if x = JUndefined then JNull else serialized x) xs = xs"
    using assms(1) by (simp add: map_idI)
  show "serialized (JArr (xs[n := a])) = JArr (xs[n := serialized a])"
    using assms(2) by (simp add: map_update m)
  show "serialized (JArr (xs @ [a])) = JArr (xs @ [serialized a])"
    using assms(2) by (simp add: m)
qed

section \<open>Claims about the response normalizers and the auth-change effect\<close>

lemma map_of_rev_distinct: "distinct (map fst xs) \<Longrightarrow> map_of (rev xs) = map_of xs"
  by (rule map_of_inject_set [THEN iffD2]) (simp_all add: rev_map [symmetric])

lemma get_prop_spread:
  "get_prop (spread target ps) k =
     (case map_of (rev ps) k of Some v \<Rightarrow> v | None \<Rightarrow> get_prop target k)"
  by (simp add: get_prop_def map_of_spread map_add_def split: option.splits)

lemma normalized_data_distinct:
  "transformKeysToCamelCase v = JObj kvs \<Longrightarrow> distinct (map fst kvs)"
  by (cases v) (auto simp: distinct_spread_Nil)

text \<open>
  Claim C1. Response normalization is idempotent: applying the persona normalizer or the
  campaign normalizer twice yields the same entity as applying it once. The statement holds
  for every property list, so in particular for every well-formed entity.
\<close>

theorem normalize_idempotent:
  "normalizePersonaResponse (normalizePersonaResponse x) = normalizePersonaResponse x \<and>
   normalizeCampaignResponse (normalizeCampaignResponse x) = normalizeCampaignResponse x"
  by (simp add: normalizePersonaResponse_idem normalizeCampaignResponse_idem)

text \<open>
  Claim C2. Whenever the authentication flag of the previous state differs from that of the
  current state, in either direction, the auth-change effect calls the Draft Manager's
  clear-on-auth-change, clears the whole query cache and then invalidates the
  \<^verbatim>\<open>company\<close> and \<^verbatim>\<open>companies\<close> keys, in that order. Afterwards no draft of any
  kind is left and the cache holds no entry.
\<close>

theorem auth_transition_wipes:
  assumes "isAuthenticated (prevAuthState s) \<noteq> isAuthenticated authState"
  shows "drafts (authChangeEffect authState s) = [] \<and>
         (\<forall>kind. getDrafts (drafts (authChangeEffect authState s)) kind = []) \<and>
         cache (authChangeEffect authState s) = [] \<and>
         calls (authChangeEffect authState s) =
           calls s @
             [ClearDraftsOnAuthChange (\<not> isAuthenticated (prevAuthState s)) (isAuthenticated authState),
              QueryClientClear,
              InvalidateQueries [''company''],
              InvalidateQueries [''companies'']] \<and>
         prevAuthState (authChangeEffect authState s) = authState"
  using assms
  by (auto simp: authChangeEffect_def Let_def clearDraftsOnAuthChange_def queryClient_clear_def
      invalidateQueries_def getDrafts_def)

text \<open>
  Claim C2, witness: signing in from the anonymous state and signing out again, each
  starting with one draft and one cached company entry.
\<close>

theorem auth_transition_wipes_witness:
  "isAuthenticated (prevAuthState (sample_hook_state anonymous)) \<noteq> isAuthenticated signed_in \<and>
   drafts (authChangeEffect signed_in (sample_hook_state anonymous)) = [] \<and>
   cache (authChangeEffect signed_in (sample_hook_state anonymous)) = [] \<and>
   isAuthenticated (prevAuthState (sample_hook_state signed_in)) \<noteq> isAuthenticated anonymous \<and>
   drafts (authChangeEffect anonymous (sample_hook_state signed_in)) = [] \<and>
   cache (authChangeEffect anonymous (sample_hook_state signed_in)) = []"
proof -
  have up: "isAuthenticated (prevAuthState (sample_hook_state anonymous)) \<noteq> isAuthenticated signed_in"
    by (simp add: sample_hook_state_def anonymous_def signed_in_def)
  have down: "isAuthenticated (prevAuthState (sample_hook_state signed_in)) \<noteq> isAuthenticated anonymous"
    by (simp add: sample_hook_state_def anonymous_def signed_in_def)
  show ?thesis
    using up down auth_transition_wipes [OF up] auth_transition_wipes [OF down] by simp
qed

text \<open>
  Claim C3, counterexample: an entity with \<^verbatim>\<open>id: "1"\<close> whose data holds
  \<^verbatim>\<open>id: "2"\<close>. Both normalizers return an entity whose top-level id is no longer the
  id of the input.
\<close>

theorem normalizer_id_overridden_counterexample:
  "get_prop (normalizePersonaResponse
       [(''id'', JStr ''1''), (''data'', JObj [(''id'', JStr ''2'')])]) ''id''
     \<noteq> get_prop [(''id'', JStr ''1''), (''data'', JObj [(''id'', JStr ''2'')])] ''id'' \<and>
   get_prop (normalizeCampaignResponse
       [(''id'', JStr ''1''), (''type'', JStr ''email''), (''data'', JObj [(''id'', JStr ''2'')])]) ''id''
     \<noteq> get_prop [(''id'', JStr ''1''), (''type'', JStr ''email''),
                    (''data'', JObj [(''id'', JStr ''2'')])] ''id''"
  by (simp add: normalizePersonaResponse_def normalizeCampaignResponse_def get_prop_def
      or_else_def)

text \<open>
  Claim C3, as amended. For an entity with pairwise distinct keys whose key-normalized data
  is a mapping: the campaign normalizer re-asserts \<^verbatim>\<open>type\<close>, so the top-level type of
  its output is the top-level type of its input whatever the data holds; both normalizers
  re-assert \<^verbatim>\<open>data\<close>; neither re-asserts \<^verbatim>\<open>id\<close>, so the top-level id of the
  output is the id found in the normalized data when there is one and the id of the input
  otherwise; and the persona normalizer treats \<^verbatim>\<open>type\<close> the same way.
\<close>

theorem normalizer_protected_fields:
  assumes "distinct (map fst x)"
    and "transformKeysToCamelCase (or_else (get_prop x ''data'') (JObj [])) = JObj kvs"
  shows "get_prop (normalizeCampaignResponse x) ''type'' = get_prop x ''type'' \<and>
         get_prop (normalizeCampaignResponse x) ''data'' = JObj kvs \<and>
         get_prop (normalizePersonaResponse x) ''data'' = JObj kvs \<and>
         get_prop (normalizeCampaignResponse x) ''id'' =
           (case map_of kvs ''id'' of Some v \<Rightarrow> v | None \<Rightarrow> get_prop x ''id'') \<and>
         get_prop (normalizePersonaResponse x) ''id'' =
           (case map_of kvs ''id'' of Some v \<Rightarrow> v | None \<Rightarrow> get_prop x ''id'') \<and>
         get_prop (normalizePersonaResponse x) ''type'' =
           (case map_of kvs ''type'' of Some v \<Rightarrow> v | None \<Rightarrow> get_prop x ''type'')"
proof -
  have dk: "map_of (rev kvs) = map_of kvs"
    using normalized_data_distinct [OF assms(2)] by (rule map_of_rev_distinct)
  show ?thesis
    by (simp add: normalizeCampaignResponse_def normalizePersonaResponse_def Let_def assms(2)
        get_prop_set_prop get_prop_spread dk spread_Nil_id [OF assms(1)])
qed

text \<open>
  Claim C3, witness: a campaign whose data holds both an id and a type.
\<close>

theorem normalizer_protected_fields_witness:
  "distinct (map fst [(''id'', JStr ''1''), (''type'', JStr ''email''),
       (''data'', JObj [(''id'', JStr ''2''), (''type'', JStr ''sms'')])]) \<and>
   get_prop (normalizeCampaignResponse [(''id'', JStr ''1''), (''type'', JStr ''email''),
       (''data'', JObj [(''id'', JStr ''2''), (''type'', JStr ''sms'')])]) ''type'' = JStr ''email'' \<and>
   get_prop (normalizeCampaignResponse [(''id'', JStr ''1''), (''type'', JStr ''email''),
       (''data'', JObj [(''id'', JStr ''2''), (''type'', JStr ''sms'')])]) ''id'' = JStr ''2'' \<and>
   get_prop (normalizePersonaResponse [(''id'', JStr ''1''), (''type'', JStr ''email''),
       (''data'', JObj [(''id'', JStr ''2''), (''type'', JStr ''sms'')])]) ''type'' = JStr ''sms''"
proof -
  let ?x = "[(''id'', JStr ''1''), (''type'', JStr ''email''),
       (''data'', JObj [(''id'', JStr ''2''), (''type'', JStr ''sms'')])]"
  have d: "distinct (map fst ?x)" by simp
  have k: "transformKeysToCamelCase (or_else (get_prop ?x ''data'') (JObj []))
      = JObj [(''id'', JStr ''2''), (''type'', JStr ''sms'')]"
    by (simp add: get_prop_def or_else_def)
  show ?thesis
    using d normalizer_protected_fields [OF d k] by (simp add: get_prop_def)
qed

text \<open>
  Claim C4. The campaign normalizer maps the raw entity
  \<^verbatim>\<open>{id:"1", type:"email", data:{target_persona_name:"VP Sales"}}\<close> to
  \<^verbatim>\<open>{id:"1", type:"email", data:{targetPersonaName:"VP Sales"}, targetPersonaName:"VP Sales"}\<close>.
\<close>

theorem normalizeCampaignResponse_example:
  "normalizeCampaignResponse
     [(''id'', JStr ''1''), (''type'', JStr ''email''),
      (''data'', JObj [(''target_persona_name'', JStr ''VP Sales'')])]
   = [(''id'', JStr ''1''), (''type'', JStr ''email''),
      (''data'', JObj [(''targetPersonaName'', JStr ''VP Sales'')]),
      (''targetPersonaName'', JStr ''VP Sales'')]"
  by (simp add: normalizeCampaignResponse_def get_prop_def or_else_def upper_of_def)

text \<open>
  Claim C5. When the authentication flag of the previous state equals that of the current
  state, so that the flag does not flip, the auth-change effect leaves the draft store and
  the query cache unchanged and calls neither collaborator; it only records the current
  state as the previous one. The guard of the effect is
  \<^verbatim>\<open>wasUnauthenticated !== !authState.isAuthenticated\<close>; on the states without a flip
  \<^verbatim>\<open>wasUnauthenticated == !isNowAuthenticated\<close> is true.
\<close>

theorem auth_same_state_noop:
  assumes "isAuthenticated (prevAuthState s) = isAuthenticated authState"
  shows "drafts (authChangeEffect authState s) = drafts s \<and>
         cache (authChangeEffect authState s) = cache s \<and>
         calls (authChangeEffect authState s) = calls s \<and>
         authChangeEffect authState s = s\<lparr>prevAuthState := authState\<rparr>"
  using assms by (simp add: authChangeEffect_def Let_def)

text \<open>
  Claim C5, witness: the effect running again in the signed-in state.
\<close>

theorem auth_same_state_noop_witness:
  "isAuthenticated (prevAuthState (sample_hook_state signed_in)) = isAuthenticated signed_in \<and>
   drafts (authChangeEffect signed_in (sample_hook_state signed_in))
     = [(''account'', [[(''tempId'', JStr ''t1'')]])] \<and>
   cache (authChangeEffect signed_in (sample_hook_state signed_in))
     = [\<lparr>queryKey = [''company'', ''7''], queryData = JNull, isInvalidated = False\<rparr>]"
proof -
  have same: "isAuthenticated (prevAuthState (sample_hook_state signed_in)) = isAuthenticated signed_in"
    by (simp add: sample_hook_state_def)
  show ?thesis
    using same auth_same_state_noop [OF same] by (simp add: sample_hook_state_def)
qed

section \<open>Claims about rate-limit headers, local storage and endpoint routing\<close>

lemmas parse_simps =
  parseRateLimitHeaders_def truthy_string_def string_of_def parseInt10_def
  is_white_space_def digit_value_def Let_def

text \<open>
  Claim C6, counterexample: a response whose three primary headers are all present, with an
  empty value for \<^verbatim>\<open>X-RateLimit-Limit\<close>. The result is \<^verbatim>\<open>null\<close>, so presence of
  the three headers alone does not give a structured value.
\<close>

theorem rate_limit_empty_header_counterexample:
  "\<not> (\<forall>h. (parseRateLimitHeaders h \<noteq> None) =
          (h ''X-RateLimit-Limit'' \<noteq> None \<and> h ''X-RateLimit-Remaining'' \<noteq> None \<and>
           h ''X-RateLimit-Reset'' \<noteq> None))"
proof
  assume all: "\<forall>h. (parseRateLimitHeaders h \<noteq> None) =
          (h ''X-RateLimit-Limit'' \<noteq> None \<and> h ''X-RateLimit-Remaining'' \<noteq> None \<and>
           h ''X-RateLimit-Reset'' \<noteq> None)"
  let ?h = "sample_headers(''X-RateLimit-Limit'' \<mapsto> '''')"
  have present: "?h ''X-RateLimit-Limit'' \<noteq> None \<and> ?h ''X-RateLimit-Remaining'' \<noteq> None \<and>
      ?h ''X-RateLimit-Reset'' \<noteq> None"
    by (simp add: sample_headers_def)
  have "parseRateLimitHeaders ?h = None"
    by (simp add: parseRateLimitHeaders_def truthy_string_def Let_def)
  with all present show False by blast
qed

text \<open>
  Claim C6, as amended. \<^verbatim>\<open>parseRateLimitHeaders\<close> returns a structured value exactly
  when the three primary headers are present with non-empty values. In that case limit,
  remaining and reset are the three values read by \<^verbatim>\<open>parseInt(_, 10)\<close>, and
  retryAfter is \<^verbatim>\<open>Retry-After\<close> read the same way when that header is present and not
  empty, and undefined otherwise. When one of the three is absent or empty the result is
  \<^verbatim>\<open>null\<close>; the function is total, so no error is raised. The headers 100, 99,
  1700000000 give limit 100, remaining 99, reset 1700000000 and no retryAfter, and dropping
  \<^verbatim>\<open>X-RateLimit-Remaining\<close> gives \<^verbatim>\<open>null\<close>.
\<close>

theorem parseRateLimitHeaders_structured:
  "(parseRateLimitHeaders h \<noteq> None) =
     (\<exists>l r t. h ''X-RateLimit-Limit'' = Some l \<and> l \<noteq> [] \<and>
              h ''X-RateLimit-Remaining'' = Some r \<and> r \<noteq> [] \<and>
              h ''X-RateLimit-Reset'' = Some t \<and> t \<noteq> []) \<and>
   (\<forall>l r t. h ''X-RateLimit-Limit'' = Some l \<and> l \<noteq> [] \<and>
            h ''X-RateLimit-Remaining'' = Some r \<and> r \<noteq> [] \<and>
            h ''X-RateLimit-Reset'' = Some t \<and> t \<noteq> [] \<longrightarrow>
      parseRateLimitHeaders h =
        Some \<lparr>limit = parseInt10 l, remaining = parseInt10 r, reset = parseInt10 t,
              retryAfter = (case h ''Retry-After'' of
                              None \<Rightarrow> None
                            | Some a \<Rightarrow> if a = [] then None else Some (parseInt10 a))\<rparr>) \<and>
   parseRateLimitHeaders sample_headers =
     Some \<lparr>limit = Num 100, remaining = Num 99, reset = Num 1700000000, retryAfter = None\<rparr> \<and>
   parseRateLimitHeaders (sample_headers(''X-RateLimit-Remaining'' := None)) = None"
proof (intro conjI allI impI)
  show "(parseRateLimitHeaders h \<noteq> None) =
     (\<exists>l r t. h ''X-RateLimit-Limit'' = Some l \<and> l \<noteq> [] \<and>
              h ''X-RateLimit-Remaining'' = Some r \<and> r \<noteq> [] \<and>
              h ''X-RateLimit-Reset'' = Some t \<and> t \<noteq> [])"
    by (auto simp: parseRateLimitHeaders_def truthy_string_def Let_def split: option.splits)
next
  fix l r t
  assume "h ''X-RateLimit-Limit'' = Some l \<and> l \<noteq> [] \<and>
            h ''X-RateLimit-Remaining'' = Some r \<and> r \<noteq> [] \<and>
            h ''X-RateLimit-Reset'' = Some t \<and> t \<noteq> []"
  then show "parseRateLimitHeaders h =
        Some \<lparr>limit = parseInt10 l, remaining = parseInt10 r, reset = parseInt10 t,
              retryAfter = (case h ''Retry-After'' of
                              None \<Rightarrow> None
                            | Some a \<Rightarrow> if a = [] then None else Some (parseInt10 a))\<rparr>"
    by (simp add: parseRateLimitHeaders_def truthy_string_def string_of_def Let_def
        split: option.splits)
next
  show "parseRateLimitHeaders sample_headers =
     Some \<lparr>limit = Num 100, remaining = Num 99, reset = Num 1700000000, retryAfter = None\<rparr>"
    by (simp add: sample_headers_def parse_simps)
next
  show "parseRateLimitHeaders (sample_headers(''X-RateLimit-Remaining'' := None)) = None"
    by (simp add: sample_headers_def parseRateLimitHeaders_def truthy_string_def Let_def)
qed

text \<open>
  Claim C6, witness: the sample headers with \<^verbatim>\<open>Retry-After: 30\<close>.
\<close>

theorem parseRateLimitHeaders_structured_witness:
  "parseRateLimitHeaders (sample_headers(''Retry-After'' \<mapsto> ''30'')) =
     Some \<lparr>limit = Num 100, remaining = Num 99, reset = Num 1700000000,
           retryAfter = Some (Num 30)\<rparr>"
proof -
  let ?h = "sample_headers(''Retry-After'' \<mapsto> ''30'')"
  have hyp: "?h ''X-RateLimit-Limit'' = Some ''100'' \<and> ''100'' \<noteq> [] \<and>
      ?h ''X-RateLimit-Remaining'' = Some ''99'' \<and> ''99'' \<noteq> [] \<and>
      ?h ''X-RateLimit-Reset'' = Some ''1700000000'' \<and> ''1700000000'' \<noteq> []"
    by (simp add: sample_headers_def)
  from parseRateLimitHeaders_structured [of ?h]
  have "\<forall>l r t. ?h ''X-RateLimit-Limit'' = Some l \<and> l \<noteq> [] \<and>
            ?h ''X-RateLimit-Remaining'' = Some r \<and> r \<noteq> [] \<and>
            ?h ''X-RateLimit-Reset'' = Some t \<and> t \<noteq> [] \<longrightarrow>
      parseRateLimitHeaders ?h =
        Some \<lparr>limit = parseInt10 l, remaining = parseInt10 r, reset = parseInt10 t,
              retryAfter = (case ?h ''Retry-After'' of
                              None \<Rightarrow> None
                            | Some a \<Rightarrow> if a = [] then None else Some (parseInt10 a))\<rparr>"
    by blast
  with hyp have "parseRateLimitHeaders ?h =
        Some \<lparr>limit = parseInt10 ''100'', remaining = parseInt10 ''99'',
              reset = parseInt10 ''1700000000'',
              retryAfter = (case ?h ''Retry-After'' of
                              None \<Rightarrow> None
                            | Some a \<Rightarrow> if a = [] then None else Some (parseInt10 a))\<rparr>"
    by blast
  then show ?thesis
    by (simp add: parseInt10_def is_white_space_def digit_value_def Let_def)
qed

text \<open>
  Claim C7. For every stored account list: \<^verbatim>\<open>updatePersonaForTargetAccount\<close> with
  an account id that matches no stored account, or with a persona whose id matches no
  persona of the account found (or when that account has no personas), returns normally and
  leaves the stored item as it was; \<^verbatim>\<open>getPersonasForTargetAccount\<close> with an unknown
  account id returns the empty list.
\<close>

theorem lookup_miss_noop:
  assumes "getStoredTargetAccounts stored = Inr (JArr xs)" and "list_all is_account xs"
  shows "(JStr accountId \<notin> (\<lambda>p. field p ''id'') ` set xs \<longrightarrow>
            updatePersonaForTargetAccount accountId persona stored = Inr stored \<and>
            getPersonasForTargetAccount accountId stored = Inr (JArr [])) \<and>
         (\<forall>account. find (\<lambda>p. field p ''id'' = JStr accountId) xs = Some account \<and>
              persona \<noteq> JNull \<and> persona \<noteq> JUndefined \<and>
              (case field account ''personas'' of
                 JArr ps \<Rightarrow> field persona ''id'' \<notin> (\<lambda>q. field q ''id'') ` set ps
               | _ \<Rightarrow> True) \<longrightarrow>
            updatePersonaForTargetAccount accountId persona stored = Inr stored)"
proof (intro conjI allI impI)
  let ?q = "\<lambda>p. field p ''id'' = JStr accountId"
  have ids: "\<forall>x \<in> set xs. has_string_id x"
    using assms(2) by (simp add: list_all_iff is_account_def)
  then have cb: "\<forall>x \<in> set xs. id_is (JStr accountId) x = Inr (?q x)"
    by (simp add: id_is_string)
  from findIndex_total [OF cb] obtain i where
    i: "findIndex (id_is (JStr accountId)) xs = Inr i" "(i = - 1) = (\<forall>x \<in> set xs. \<not> ?q x)"
       "- 1 \<le> i"
       "0 \<le> i \<longrightarrow> nat i < length xs \<and> ?q (xs ! nat i) \<and> find ?q xs = Some (xs ! nat i)"
    by blast
  {
    assume miss: "JStr accountId \<notin> (\<lambda>p. field p ''id'') ` set xs"
    then have none: "\<forall>x \<in> set xs. \<not> ?q x" by (metis imageI)
    then have "i = - 1" using i(2) by simp
    then show "updatePersonaForTargetAccount accountId persona stored = Inr stored"
      by (simp add: updatePersonaForTargetAccount_def assms(1) then_e_def as_array_def i(1))
    have "find ?q xs = None" using none by (simp add: find_None_iff)
    then show "getPersonasForTargetAccount accountId stored = Inr (JArr [])"
      by (simp add: getPersonasForTargetAccount_def assms(1) then_e_def as_array_def
          find_js_total [OF cb] or_else_def)
  }
  {
    fix account
    assume hit: "find ?q xs = Some account \<and> persona \<noteq> JNull \<and> persona \<noteq> JUndefined \<and>
        (case field account ''personas'' of
           JArr ps \<Rightarrow> field persona ''id'' \<notin> (\<lambda>q. field q ''id'') ` set ps
         | _ \<Rightarrow> True)"
    then have "\<exists>x \<in> set xs. ?q x" by (auto simp: find_Some_iff)
    then have "i \<noteq> - 1" using i(2) by simp
    then have nn: "0 \<le> i" using i(3) by arith
    with i(4) hit have acc: "xs ! nat i = account" and mem: "account \<in> set xs"
      by (auto simp: nth_mem)
    from mem assms(2) have wf: "is_account account" by (simp add: list_all_iff)
    then have rf: "read_field account ''personas'' = Inr (field account ''personas'')"
      by (simp add: is_account_def has_string_id_read)
    show "updatePersonaForTargetAccount accountId persona stored = Inr stored"
    proof (cases "field account ''personas''")
      case (JArr ps)
      with wf have pids: "\<forall>q \<in> set ps. has_string_id q"
        by (simp add: is_account_def list_all_iff)
      then have cb2: "\<forall>q \<in> set ps. same_id persona q
          = Inr (field q ''id'' = field persona ''id'')"
        using hit by (simp add: same_id_defined)
      from findIndex_total [OF cb2] obtain j where
        j: "findIndex (same_id persona) ps = Inr j"
           "(j = - 1) = (\<forall>q \<in> set ps. field q ''id'' \<noteq> field persona ''id'')"
        by blast
      from hit JArr have "field persona ''id'' \<notin> (\<lambda>q. field q ''id'') ` set ps" by simp
      then have "\<forall>q \<in> set ps. field q ''id'' \<noteq> field persona ''id''" by (metis imageI)
      then have "j = - 1" using j(2) by simp
      then show ?thesis
        using \<open>i \<noteq> - 1\<close>
        by (simp add: updatePersonaForTargetAccount_def assms(1) then_e_def as_array_def i(1)
            Let_def acc rf JArr j(1))
    next
      case JUndefined
      then show ?thesis
        using \<open>i \<noteq> - 1\<close>
        by (simp add: updatePersonaForTargetAccount_def assms(1) then_e_def as_array_def i(1)
            Let_def acc rf)
    qed (use wf in \<open>simp_all add: is_account_def\<close>)
  }
qed

text \<open>
  Claim C7, witness: two stored accounts, an unknown account id, a known account without
  the persona, and a known account without personas.
\<close>

theorem lookup_miss_noop_witness:
  "getStoredTargetAccounts (Some (JSON_stringify (JArr [account_a, account_b])))
     = Inr (JArr [account_a, account_b]) \<and>
   list_all is_account [account_a, account_b] \<and>
   updatePersonaForTargetAccount ''a9'' persona_b (Some (JSON_stringify (JArr [account_a, account_b])))
     = Inr (Some (JSON_stringify (JArr [account_a, account_b]))) \<and>
   getPersonasForTargetAccount ''a9'' (Some (JSON_stringify (JArr [account_a, account_b])))
     = Inr (JArr []) \<and>
   updatePersonaForTargetAccount ''a1'' persona_b (Some (JSON_stringify (JArr [account_a, account_b])))
     = Inr (Some (JSON_stringify (JArr [account_a, account_b]))) \<and>
   updatePersonaForTargetAccount ''a2'' persona_b (Some (JSON_stringify (JArr [account_a, account_b])))
     = Inr (Some (JSON_stringify (JArr [account_a, account_b])))"
proof -
  let ?st = "Some (JSON_stringify (JArr [account_a, account_b]))"
  have rd: "getStoredTargetAccounts ?st = Inr (JArr [account_a, account_b])"
    by (simp add: getStoredTargetAccounts_def JSON_stringify_def sample_defs)
  have wf: "list_all is_account [account_a, account_b]"
    by (simp add: is_account_def field_def get_prop_def sample_defs)
  have m9: "JStr ''a9'' \<notin> (\<lambda>p. field p ''id'') ` set [account_a, account_b]"
    by (simp add: field_def get_prop_def sample_defs)
  have h1: "find (\<lambda>p. field p ''id'' = JStr ''a1'') [account_a, account_b] = Some account_a \<and>
      persona_b \<noteq> JNull \<and> persona_b \<noteq> JUndefined \<and>
      (case field account_a ''personas'' of
         JArr ps \<Rightarrow> field persona_b ''id'' \<notin> (\<lambda>q. field q ''id'') ` set ps
       | _ \<Rightarrow> True)"
    by (simp add: field_def get_prop_def sample_defs)
  have h2: "find (\<lambda>p. field p ''id'' = JStr ''a2'') [account_a, account_b] = Some account_b \<and>
      persona_b \<noteq> JNull \<and> persona_b \<noteq> JUndefined \<and>
      (case field account_b ''personas'' of
         JArr ps \<Rightarrow> field persona_b ''id'' \<notin> (\<lambda>q. field q ''id'') ` set ps
       | _ \<Rightarrow> True)"
    by (simp add: field_def get_prop_def sample_defs)
  show ?thesis
    using rd wf m9 h1 h2
      lookup_miss_noop [OF rd wf, of "''a9''" persona_b]
      lookup_miss_noop [OF rd wf, of "''a1''" persona_b]
      lookup_miss_noop [OF rd wf, of "''a2''" persona_b]
    by blast
qed

text \<open>
  Claim C8, counterexample: when the stored value is a string that \<^verbatim>\<open>JSON.parse\<close>
  rejects, \<^verbatim>\<open>getStoredTargetAccounts\<close> does not return a list; the error of the parser
  reaches the caller, since the function has no handler.
\<close>

theorem corrupted_store_counterexample:
  "\<not> (\<forall>stored. \<exists>xs. getStoredTargetAccounts stored = Inr (JArr xs))"
proof
  assume "\<forall>stored. \<exists>xs. getStoredTargetAccounts stored = Inr (JArr xs)"
  then obtain xs where "getStoredTargetAccounts (Some Malformed) = Inr (JArr xs)" by blast
  then show False by (simp add: getStoredTargetAccounts_def)
qed

text \<open>
  Claim C8, as amended. \<^verbatim>\<open>getStoredTargetAccounts\<close> returns the empty list when no
  value or the empty string is stored. On a corrupted value it propagates the parser's
  \<^verbatim>\<open>SyntaxError\<close>, and it fails in no other way: every error it returns is the error
  of \<^verbatim>\<open>JSON.parse\<close> on the stored string. On every other stored string it returns the
  parsed value without checking its shape, so the text of \<^verbatim>\<open>null\<close> or of an object
  yields that value and not a list, and the text of a list of plain values yields that
  list.
\<close>

theorem getStoredTargetAccounts_results:
  "getStoredTargetAccounts None = Inr (JArr []) \<and>
   getStoredTargetAccounts (Some EmptyString) = Inr (JArr []) \<and>
   getStoredTargetAccounts (Some Malformed) = Inl SyntaxError \<and>
   (\<forall>e. getStoredTargetAccounts stored = Inl e \<longrightarrow>
      e = SyntaxError \<and> (\<exists>t. stored = Some t \<and> t \<noteq> EmptyString \<and> JSON_parse t = Inl e)) \<and>
   (\<forall>v. v \<noteq> JUndefined \<longrightarrow>
      getStoredTargetAccounts (Some (JSON_stringify v)) = Inr (serialized v)) \<and>
   getStoredTargetAccounts (Some (JSON_stringify JNull)) = Inr JNull \<and>
   getStoredTargetAccounts (Some (JSON_stringify (JObj []))) = Inr (JObj []) \<and>
   (\<forall>xs. plain (JArr xs) \<longrightarrow>
      getStoredTargetAccounts (Some (JSON_stringify (JArr xs))) = Inr (JArr xs))"
proof -
  have fails: "e = SyntaxError \<and> (\<exists>t. stored = Some t \<and> t \<noteq> EmptyString \<and> JSON_parse t = Inl e)"
    if "getStoredTargetAccounts stored = Inl e" for e
  proof (cases stored)
    case None
    with that show ?thesis by (simp add: getStoredTargetAccounts_def)
  next
    case (Some t)
    with that show ?thesis
      by (cases t) (auto simp: getStoredTargetAccounts_def split: if_splits)
  qed
  have noshape: "getStoredTargetAccounts (Some (JSON_stringify v)) = Inr (serialized v)"
    if "v \<noteq> JUndefined" for v
    using that by (simp add: getStoredTargetAccounts_def JSON_stringify_def)
  have readback: "getStoredTargetAccounts (Some (JSON_stringify (JArr xs))) = Inr (JArr xs)"
    if "plain (JArr xs)" for xs
    using serialized_plain [OF that] by (simp only: read_written)
  have base: "getStoredTargetAccounts None = Inr (JArr [])"
    "getStoredTargetAccounts (Some EmptyString) = Inr (JArr [])"
    "getStoredTargetAccounts (Some Malformed) = Inl SyntaxError"
    "getStoredTargetAccounts (Some (JSON_stringify JNull)) = Inr JNull"
    "getStoredTargetAccounts (Some (JSON_stringify (JObj []))) = Inr (JObj [])"
    by (simp_all add: getStoredTargetAccounts_def JSON_stringify_def)
  show ?thesis using fails noshape readback base by blast
qed

text \<open>
  Claim C8, witness: a rejected string, the text of a string value, and the text of a list.
\<close>

theorem getStoredTargetAccounts_results_witness:
  "getStoredTargetAccounts (Some Malformed) = Inl SyntaxError \<and>
   JSON_parse Malformed = Inl SyntaxError \<and>
   getStoredTargetAccounts (Some (JSON_stringify (JStr ''x''))) = Inr (JStr ''x'') \<and>
   plain (JArr [account_a, JNull]) \<and>
   getStoredTargetAccounts (Some (JSON_stringify (JArr [account_a, JNull])))
     = Inr (JArr [account_a, JNull])"
proof -
  have bad: "getStoredTargetAccounts (Some Malformed) = Inl SyntaxError"
    by (simp add: getStoredTargetAccounts_def)
  have pl: "plain (JArr [account_a, JNull])" by (simp add: sample_defs)
  have str: "JStr ''x'' \<noteq> JUndefined" and ser: "serialized (JStr ''x'') = JStr ''x''"
    by simp_all
  from getStoredTargetAccounts_results [of "Some Malformed"] bad
  have p: "JSON_parse Malformed = Inl SyntaxError" by blast
  from getStoredTargetAccounts_results [of "Some Malformed"] str
  have s: "getStoredTargetAccounts (Some (JSON_stringify (JStr ''x''))) = Inr (serialized (JStr ''x''))"
    by blast
  from getStoredTargetAccounts_results [of "Some Malformed"] pl
  have l: "getStoredTargetAccounts (Some (JSON_stringify (JArr [account_a, JNull])))
     = Inr (JArr [account_a, JNull])"
    by blast
  show ?thesis using bad p s l pl by (simp only: ser simp_thms)
qed

text \<open>
  Claim C9. For every stored account list with pairwise distinct ids and every account
  \<open>a\<close>: after \<^verbatim>\<open>saveTargetAccount(a)\<close> the stored list holds the accounts with
  another id unchanged and in the same order, holds exactly one account with the id of
  \<open>a\<close>, namely \<open>a\<close> as it is serialized (which is \<open>a\<close> itself when \<open>a\<close> is plain),
  in the place of the existing match or at the end when there was none, and its ids are
  pairwise distinct. \<^verbatim>\<open>deleteTargetAccount(id)\<close> removes exactly the entries with that
  id and keeps the ids pairwise distinct.
\<close>

theorem save_delete_frame:
  assumes "getStoredTargetAccounts stored = Inr (JArr xs)"
    and "list_all has_string_id xs"
    and "distinct (map (\<lambda>p. field p ''id'') xs)"
    and "has_string_id a"
  shows "(\<exists>stored' ys. saveTargetAccount a stored = Inr stored' \<and>
            getStoredTargetAccounts stored' = Inr (JArr ys) \<and>
            filter (\<lambda>p. field p ''id'' \<noteq> field a ''id'') ys
              = filter (\<lambda>p. field p ''id'' \<noteq> field a ''id'') xs \<and>
            filter (\<lambda>p. field p ''id'' = field a ''id'') ys = [serialized a] \<and>
            distinct (map (\<lambda>p. field p ''id'') ys) \<and>
            list_all has_string_id ys \<and>
            (if field a ''id'' \<in> (\<lambda>p. field p ''id'') ` set xs
             then \<exists>i < length xs. field (xs ! i) ''id'' = field a ''id'' \<and>
                    ys = xs[i := serialized a]
             else ys = xs @ [serialized a])) \<and>
         (plain a \<longrightarrow> serialized a = a) \<and>
         (\<exists>stored' zs. deleteTargetAccount ident stored = Inr stored' \<and>
            getStoredTargetAccounts stored' = Inr (JArr zs) \<and>
            zs = filter (\<lambda>p. field p ''id'' \<noteq> JStr ident) xs \<and>
            JStr ident \<notin> (\<lambda>p. field p ''id'') ` set zs \<and>
            distinct (map (\<lambda>p. field p ''id'') zs))"
proof (intro conjI)
  let ?f = "\<lambda>p. field p ''id''"
  let ?sa = "serialized a"
  have ids: "\<forall>x \<in> set xs. has_string_id x" using assms(2) by (simp add: list_all_iff)
  have stable: "\<forall>x \<in> set xs. x \<noteq> JUndefined \<and> serialized x = x"
    using read_stable [OF assms(1)] stable_elements by blast
  have a_def: "a \<noteq> JNull" "a \<noteq> JUndefined" using assms(4) by auto
  have sa: "has_string_id ?sa" "?f ?sa = ?f a"
    using serialized_string_id [OF assms(4)] by simp_all
  have cb: "\<forall>x \<in> set xs. same_id a x = Inr (?f x = ?f a)"
    using ids a_def by (simp add: same_id_defined)
  from findIndex_total [OF cb] obtain i where
    i: "findIndex (same_id a) xs = Inr i" "(i = - 1) = (\<forall>x \<in> set xs. ?f x \<noteq> ?f a)"
       "- 1 \<le> i" "0 \<le> i \<longrightarrow> nat i < length xs \<and> ?f (xs ! nat i) = ?f a"
    by blast
  show "\<exists>stored' ys. saveTargetAccount a stored = Inr stored' \<and>
            getStoredTargetAccounts stored' = Inr (JArr ys) \<and>
            filter (\<lambda>p. ?f p \<noteq> ?f a) ys = filter (\<lambda>p. ?f p \<noteq> ?f a) xs \<and>
            filter (\<lambda>p. ?f p = ?f a) ys = [?sa] \<and>
            distinct (map ?f ys) \<and>
            list_all has_string_id ys \<and>
            (if ?f a \<in> ?f ` set xs
             then \<exists>i < length xs. ?f (xs ! i) = ?f a \<and> ys = xs[i := ?sa]
             else ys = xs @ [?sa])"
  proof (cases "0 \<le> i")
    case True
    let ?n = "nat i"
    from True i(4) have n: "?n < length xs" and an: "?f (xs ! ?n) = ?f a" by simp_all
    then have mem: "?f a \<in> ?f ` set xs" by (metis imageI nth_mem)
    have sv: "saveTargetAccount a stored = Inr (Some (JSON_stringify (JArr (xs[?n := a]))))"
      using True by (simp add: saveTargetAccount_def assms(1) then_e_def as_array_def i(1))
    have rd: "getStoredTargetAccounts (Some (JSON_stringify (JArr (xs[?n := a]))))
        = Inr (JArr (xs[?n := ?sa]))"
      by (simp only: read_written serialized_update(1) [OF stable a_def(2)])
    have f1: "filter (\<lambda>p. ?f p \<noteq> ?f a) (xs[?n := ?sa]) = filter (\<lambda>p. ?f p \<noteq> ?f a) xs"
      by (rule filter_update_other) (use n an sa(2) in simp_all)
    have "filter (\<lambda>p. ?f p = ?f ?sa) (xs[?n := ?sa]) = [?sa]"
      using assms(3) n by (rule filter_update_same) (simp add: an sa(2))
    then have f2: "filter (\<lambda>p. ?f p = ?f a) (xs[?n := ?sa]) = [?sa]" by (simp add: sa(2))
    have d: "distinct (map ?f (xs[?n := ?sa]))"
      using assms(3) map_update_same [of ?n xs ?f ?sa] n an sa(2) by simp
    have w: "list_all has_string_id (xs[?n := ?sa])"
      using ids sa(1) set_update_subset_insert [of xs ?n ?sa] by (auto simp: list_all_iff)
    show ?thesis using sv rd f1 f2 d w mem n an by auto
  next
    case False
    then have neg: "i = - 1" using i(3) by arith
    then have none: "\<forall>x \<in> set xs. ?f x \<noteq> ?f a" using i(2) by simp
    then have nm: "?f a \<notin> ?f ` set xs" by auto
    have sv: "saveTargetAccount a stored = Inr (Some (JSON_stringify (JArr (xs @ [a]))))"
      using neg by (simp add: saveTargetAccount_def assms(1) then_e_def as_array_def i(1))
    have rd: "getStoredTargetAccounts (Some (JSON_stringify (JArr (xs @ [a]))))
        = Inr (JArr (xs @ [?sa]))"
      by (simp only: read_written serialized_update(2) [OF stable a_def(2)])
    have f1: "filter (\<lambda>p. ?f p \<noteq> ?f a) xs = xs" using none by (simp add: filter_id_conv)
    have f2: "filter (\<lambda>p. ?f p = ?f a) xs = []" using none by (simp add: filter_empty_conv)
    have w: "list_all has_string_id (xs @ [?sa])" using ids sa(1) by (simp add: list_all_iff)
    show ?thesis using sv rd f1 f2 nm assms(3) sa w by auto
  qed
  show "plain a \<longrightarrow> serialized a = a" by (simp add: serialized_plain)
  let ?q = "\<lambda>p. ?f p \<noteq> JStr ident"
  have cbd: "\<forall>x \<in> set xs.
      (case id_is (JStr ident) x of Inl e \<Rightarrow> Inl e | Inr b \<Rightarrow> Inr (\<not> b)) = Inr (?q x)"
    using ids by (simp add: id_is_string)
  have dl: "deleteTargetAccount ident stored = Inr (Some (JSON_stringify (JArr (filter ?q xs))))"
    by (simp add: deleteTargetAccount_def assms(1) then_e_def as_array_def
        filter_js_total [OF cbd])
  have "serialized (JArr (filter ?q xs)) = JArr (filter ?q xs)"
    by (rule stable_array) (use stable in simp)
  then have rdd: "getStoredTargetAccounts (Some (JSON_stringify (JArr (filter ?q xs))))
      = Inr (JArr (filter ?q xs))"
    by (simp only: read_written)
  show "\<exists>stored' zs. deleteTargetAccount ident stored = Inr stored' \<and>
            getStoredTargetAccounts stored' = Inr (JArr zs) \<and>
            zs = filter ?q xs \<and>
            JStr ident \<notin> ?f ` set zs \<and>
            distinct (map ?f zs)"
    using dl rdd assms(3) by (auto simp: distinct_map_filter)
qed

text \<open>
  Claim C9, witness: replacing the second of two stored accounts and deleting the first.
\<close>

theorem save_delete_frame_witness:
  "getStoredTargetAccounts (Some (JSON_stringify (JArr [account_a, account_b])))
     = Inr (JArr [account_a, account_b]) \<and>
   list_all has_string_id [account_a, account_b] \<and>
   distinct (map (\<lambda>p. field p ''id'') [account_a, account_b]) \<and>
   has_string_id account_c \<and>
   (\<exists>stored' ys. saveTargetAccount account_c (Some (JSON_stringify (JArr [account_a, account_b])))
            = Inr stored' \<and>
          getStoredTargetAccounts stored' = Inr (JArr ys) \<and>
          filter (\<lambda>p. field p ''id'' \<noteq> JStr ''a2'') ys = [account_a] \<and>
          filter (\<lambda>p. field p ''id'' = JStr ''a2'') ys = [account_c]) \<and>
   (\<exists>stored'. deleteTargetAccount ''a1'' (Some (JSON_stringify (JArr [account_a, account_b])))
            = Inr stored' \<and>
          getStoredTargetAccounts stored' = Inr (JArr [account_b]))"
proof -
  let ?st = "Some (JSON_stringify (JArr [account_a, account_b]))"
  have rd: "getStoredTargetAccounts ?st = Inr (JArr [account_a, account_b])"
    by (simp add: getStoredTargetAccounts_def JSON_stringify_def sample_defs)
  have ids: "field account_a ''id'' = JStr ''a1''" "field account_b ''id'' = JStr ''a2''"
    "field account_c ''id'' = JStr ''a2''"
    by (simp_all add: field_def get_prop_def sample_defs account_c_def)
  have wf: "list_all has_string_id [account_a, account_b]"
    by (simp add: get_prop_def sample_defs)
  have ds: "distinct (map (\<lambda>p. field p ''id'') [account_a, account_b])"
    by (simp add: ids)
  have wc: "has_string_id account_c" by (simp add: account_c_def get_prop_def)
  have pc: "plain account_c" by (simp add: account_c_def)
  from save_delete_frame [OF rd wf ds wc, of "''a1''"] pc
  have sc: "serialized account_c = account_c" by blast
  show ?thesis
    using rd wf ds wc save_delete_frame [OF rd wf ds wc, of "''a1''"]
    by (auto simp: ids sc)
qed

text \<open>
  Claim C10. \<^verbatim>\<open>getApiBasePath\<close> returns \<^verbatim>\<open>/api\<close> exactly when the global auth
  state is authenticated with a token that is neither \<^verbatim>\<open>null\<close> nor empty, and
  \<^verbatim>\<open>/demo\<close> in every other case, including an authenticated state whose token is
  \<^verbatim>\<open>null\<close> or empty.
\<close>

theorem getApiBasePath_routing:
  "(getApiBasePath g = ''/api'') = (isAuthenticated g \<and> (\<exists>t. token g = Some t \<and> t \<noteq> [])) \<and>
   (getApiBasePath g = ''/demo'') = (\<not> (isAuthenticated g \<and> (\<exists>t. token g = Some t \<and> t \<noteq> []))) \<and>
   getApiBasePath (g\<lparr>isAuthenticated := True, token := None\<rparr>) = ''/demo'' \<and>
   getApiBasePath (g\<lparr>isAuthenticated := True, token := Some []\<rparr>) = ''/demo''"
  by (cases "token g") (simp_all add: getApiBasePath_def shouldUseAuthenticatedEndpoints_def)

end
